theory Spec2Isabelle
  imports Main
begin

section \<open>JavaScript values of the collection runner\<close>

text \<open>
  The runner (\<^verbatim>\<open>services/collectionRunner.ts\<close>) and the script runner
  (\<^verbatim>\<open>services/scriptRunner.ts\<close>) work on a variable bag of type
  \<^verbatim>\<open>Record<string, any>\<close>. The route that calls \<^verbatim>\<open>runCollection\<close> takes the bag
  from the parsed JSON body of the HTTP request, so its values are JSON data: null,
  booleans, numbers, strings, arrays and objects. Strings are lists of characters. An
  object is the list of its own properties in insertion order.

  A number of the language is a double. The numbers of the model are the safe integers,
  from \<open>-(2^53 - 1)\<close> to \<open>2^53 - 1\<close>: each of them is a double, \<^verbatim>\<open>JSON.parse\<close>
  reads its numeral exactly, and the number-to-string conversion prints it as its decimal
  numeral. A fraction and an integer of larger magnitude, which that conversion prints by
  its shortest digits or with an exponent, have no value in the model.
\<close>

typedef safe_integer = "{n :: int. - 9007199254740991 \<le> n \<and> n \<le> 9007199254740991}"
  morphisms integer_value safe_int
  by (rule exI [of _ 0]) simp

datatype json =
    JNull
  | JBool bool
  | JNum safe_integer
  | JStr string
  | JArr "json list"
  | JObj "(string \<times> json) list"

text \<open>
  Reading a property can also yield \<^verbatim>\<open>undefined\<close> or a member of
  \<^verbatim>\<open>Object.prototype\<close>, which every object made by \<^verbatim>\<open>JSON.parse\<close> inherits.
\<close>

datatype jsval =
    Undefined
  | Data json
  | NativeFunction string
  | ObjectPrototype

text \<open>Thrown errors, each with its \<^verbatim>\<open>message\<close>.\<close>

datatype js_error =
    TypeError string
  | SyntaxError string
  | AxiosError string
  | GenericError string

fun message :: "js_error \<Rightarrow> string" where
  "message (TypeError m) = m"
| "message (SyntaxError m) = m"
| "message (AxiosError m) = m"
| "message (GenericError m) = m"

text \<open>
  The state of the promise an \<^verbatim>\<open>async\<close> function returns, once nothing more can
  happen to it: fulfilled with a value, rejected with an error (an exception left the
  function), or pending for ever.
\<close>

datatype 'a promise =
    Fulfilled 'a
  | Rejected js_error
  | Pending

type_synonym bag = "(string \<times> json) list"

subsection \<open>Truthiness\<close>

fun json_truthy :: "json \<Rightarrow> bool" where
  "json_truthy JNull = False"
| "json_truthy (JBool b) = b"
| "json_truthy (JNum n) = (integer_value n \<noteq> 0)"
| "json_truthy (JStr s) = (s \<noteq> [])"
| "json_truthy (JArr xs) = True"
| "json_truthy (JObj kvs) = True"

fun truthy :: "jsval \<Rightarrow> bool" where
  "truthy Undefined = False"
| "truthy (Data v) = json_truthy v"
| "truthy (NativeFunction f) = True"
| "truthy ObjectPrototype = True"

subsection \<open>Property lookup\<close>

text \<open>
  \<^verbatim>\<open>variables[variableName]\<close> reads an own property first and then follows the
  prototype chain. These are the twelve properties of \<^verbatim>\<open>Object.prototype\<close> in V8, the
  engine of Node.js.
\<close>

definition object_prototype :: "(string \<times> jsval) list" where
  "object_prototype =
    [(''constructor'', NativeFunction ''Object''),
     (''__defineGetter__'', NativeFunction ''__defineGetter__''),
     (''__defineSetter__'', NativeFunction ''__defineSetter__''),
     (''hasOwnProperty'', NativeFunction ''hasOwnProperty''),
     (''__lookupGetter__'', NativeFunction ''__lookupGetter__''),
     (''__lookupSetter__'', NativeFunction ''__lookupSetter__''),
     (''isPrototypeOf'', NativeFunction ''isPrototypeOf''),
     (''propertyIsEnumerable'', NativeFunction ''propertyIsEnumerable''),
     (''toString'', NativeFunction ''toString''),
     (''valueOf'', NativeFunction ''valueOf''),
     (''__proto__'', ObjectPrototype),
     (''toLocaleString'', NativeFunction ''toLocaleString'')]"

definition inherited_names :: "string list" where
  "inherited_names = map fst object_prototype"

definition get_property :: "bag \<Rightarrow> string \<Rightarrow> jsval" where
  "get_property obj key =
    (case map_of obj key of
       Some v \<Rightarrow> Data v
     | None \<Rightarrow> (case map_of object_prototype key of Some p \<Rightarrow> p | None \<Rightarrow> Undefined))"

subsection \<open>Conversion to a string\<close>

definition digit_char :: "nat \<Rightarrow> char" where
  "digit_char d = ''0123456789'' ! d"

fun digits :: "nat \<Rightarrow> string" where
  "digits n = (if n < 10 then [digit_char n] else digits (n div 10) @ [digit_char (n mod 10)])"

declare digits.simps [simp del]

definition decimal :: "int \<Rightarrow> string" where
  "decimal n = (if n < 0 then CHR ''-'' # digits (nat (- n)) else digits (nat n))"

definition number_to_string :: "safe_integer \<Rightarrow> string" where
  "number_to_string n = decimal (integer_value n)"

text \<open>
  \<^verbatim>\<open>ToString\<close> of the language. An array is joined with commas, a null element giving
  the empty string. An object is converted by calling its \<^verbatim>\<open>toString\<close> and then its
  \<^verbatim>\<open>valueOf\<close>: with the inherited \<^verbatim>\<open>toString\<close> the result is
  \<^verbatim>\<open>[object Object]\<close>; an own property \<^verbatim>\<open>toString\<close> of JSON data is not
  callable, the inherited \<^verbatim>\<open>valueOf\<close> returns the object itself, and the conversion
  throws a TypeError.
\<close>

fun ToString_json :: "json \<Rightarrow> js_error + string"
  and join_elements :: "json list \<Rightarrow> js_error + string" where
  "ToString_json JNull = Inr ''null''"
| "ToString_json (JBool b) = Inr (if b then ''true'' else ''false'')"
| "ToString_json (JNum n) = Inr (number_to_string n)"
| "ToString_json (JStr s) = Inr s"
| "ToString_json (JArr xs) = join_elements xs"
| "ToString_json (JObj kvs) =
     (if map_of kvs ''toString'' \<noteq> None
      then Inl (TypeError ''Cannot convert object to primitive value'')
      else Inr ''[object Object]'')"
| "join_elements [] = Inr []"
| "join_elements (x # xs) =
     (case (if x = JNull then Inr [] else ToString_json x) of
        Inl e \<Rightarrow> Inl e
      | Inr s \<Rightarrow>
          (if xs = [] then Inr s
           else (case join_elements xs of
                   Inl e \<Rightarrow> Inl e
                 | Inr r \<Rightarrow> Inr (s @ '','' @ r))))"

fun ToString :: "jsval \<Rightarrow> js_error + string" where
  "ToString Undefined = Inr ''undefined''"
| "ToString (Data v) = ToString_json v"
| "ToString (NativeFunction f) = Inr (''function '' @ f @ ''() { [native code] }'')"
| "ToString ObjectPrototype = Inr ''[object Object]''"

section \<open>Variable interpolation\<close>

subsection \<open>The placeholder pattern\<close>

text \<open>
  The regular expression \<^verbatim>\<open>/\{\{(\w+)\}\}/g\<close>. A word character is a letter, a digit
  or the underscore. Anchored at the head of a string the pattern reads two opening
  braces, the longest run of word characters, which must not be empty, and two closing
  braces. Backtracking to a shorter run cannot help, since the character after the
  shorter run is a word character and not a brace. A match gives the matched text, the
  captured name and the rest of the string after the match.
\<close>

definition is_word :: "char \<Rightarrow> bool" where
  "is_word c \<longleftrightarrow>
     c \<in> set (''abcdefghijklmnopqrstuvwxyz'' @ ''ABCDEFGHIJKLMNOPQRSTUVWXYZ'' @ ''0123456789_'')"

definition match_placeholder :: "string \<Rightarrow> (string \<times> string \<times> string) option" where
  "match_placeholder s =
    (case s of
       c1 # c2 # rest \<Rightarrow>
         if c1 = CHR ''{'' \<and> c2 = CHR ''{'' then
           (let name = takeWhile is_word rest; after = dropWhile is_word rest in
            if name = [] then None
            else (case after of
                    d1 # d2 # tail \<Rightarrow>
                      if d1 = CHR ''}'' \<and> d2 = CHR ''}''
                      then Some (take (length name + 4) s, name, tail)
                      else None
                  | _ \<Rightarrow> None))
         else None
     | _ \<Rightarrow> None)"

text \<open>\<^verbatim>\<open>regex.test(s)\<close>: the pattern matches somewhere in the string.\<close>

fun has_placeholder :: "string \<Rightarrow> bool" where
  "has_placeholder [] = False"
| "has_placeholder (c # cs) = (match_placeholder (c # cs) \<noteq> None \<or> has_placeholder cs)"

text \<open>The text of a placeholder and what an identifier is, in the words of the specification.\<close>

definition placeholder :: "string \<Rightarrow> string" where
  "placeholder name = ''{{'' @ name @ ''}}''"

definition is_identifier :: "string \<Rightarrow> bool" where
  "is_identifier name \<longleftrightarrow> name \<noteq> [] \<and> list_all is_word name"

lemma dropWhile_tail_shorter:
  "dropWhile P r = d1 # d2 # t \<Longrightarrow> length t < length r"
  using length_dropWhile_le [of P r] by simp

lemma match_placeholder_shorter:
  assumes "match_placeholder s = Some m"
  shows "length (snd (snd m)) < length s"
  using assms
  by (auto simp: match_placeholder_def Let_def split: list.splits if_splits
           dest!: dropWhile_tail_shorter)

subsection \<open>Global replacement\<close>

text \<open>
  \<^verbatim>\<open>str.replace(regex, callback)\<close> with the global flag: the string is scanned from
  the left; at a match the callback's result, converted to a string, replaces the matched
  text and the scan goes on after the match; elsewhere one character is copied. The first
  conversion that throws ends the call.
\<close>

function replace_global ::
  "(string \<Rightarrow> string \<Rightarrow> js_error + string) \<Rightarrow> string \<Rightarrow> js_error + string" where
  "replace_global f [] = Inr []"
| "replace_global f (c # cs) =
     (case match_placeholder (c # cs) of
        None \<Rightarrow>
          (case replace_global f cs of
             Inl e \<Rightarrow> Inl e
           | Inr out \<Rightarrow> Inr (c # out))
      | Some m \<Rightarrow>
          (case f (fst m) (fst (snd m)) of
             Inl e \<Rightarrow> Inl e
           | Inr r \<Rightarrow>
               (case replace_global f (snd (snd m)) of
                  Inl e \<Rightarrow> Inl e
                | Inr out \<Rightarrow> Inr (r @ out))))"
  by pat_completeness auto
termination
  by (relation "measure (\<lambda>(f, s). length s)") (auto dest: match_placeholder_shorter)

declare replace_global.simps(2) [simp del]

text \<open>
  \<^verbatim>\<open>(match, variableName) => variables[variableName] || match\<close>, whose result
  \<^verbatim>\<open>replace\<close> converts to a string.
\<close>

definition substitute :: "bag \<Rightarrow> string \<Rightarrow> string \<Rightarrow> js_error + string" where
  "substitute variables match variableName =
    ToString (let v = get_property variables variableName in
              if truthy v then v else Data (JStr match))"

definition replaceVariables :: "string \<Rightarrow> bag \<Rightarrow> js_error + string" where
  "replaceVariables str variables =
    (if str = [] then Inr str else replace_global (substitute variables) str)"

section \<open>The request executor\<close>

text \<open>
  The records of \<^verbatim>\<open>collectionRunner.ts\<close>. An optional field is an option. Where two
  records of the source have a field of the same name, the fields of the request
  (\<open>id\<close>, \<open>name\<close>, \<open>method\<close>, \<open>url\<close>, \<open>headers\<close>, \<open>body\<close>, \<open>params\<close>), of
  the response and of the request configuration carry a prefix.
\<close>

datatype execution_mode = Sequential | Parallel

record RunOptions =
  executionMode :: execution_mode
  delayBetweenRequests :: "nat option"
  environment :: string
  variables :: bag

record RequestData =
  req_id :: int
  req_name :: string
  req_method :: string
  req_url :: string
  req_headers :: "json option"
  req_body :: "json option"
  req_params :: "json option"

record Response =
  resp_status :: safe_integer
  statusText :: string
  resp_data :: json
  resp_headers :: json

datatype request_status = Completed | Failed

record RequestResult =
  requestId :: int
  name :: string
  http_method :: string
  url :: string
  status :: request_status
  response :: "Response option"
  error :: "string option"
  duration :: int
  timestamp :: int

record RunSummary =
  total :: nat
  completed :: nat
  failed :: nat
  totalDuration :: int

datatype run_status = RunRunning | RunCompleted | RunFailed

record RunOutput =
  runId :: string
  run_status :: run_status
  results :: "RequestResult list"
  summary :: RunSummary

record AxiosRequestConfig =
  cfg_method :: string
  cfg_url :: string
  cfg_headers :: "json option"
  cfg_data :: "json option"
  cfg_params :: "json option"
  validateStatus :: "safe_integer \<Rightarrow> bool"

text \<open>
  What the runner calls and does not define is a parameter of the model:
  the HTTP exchange behind \<^verbatim>\<open>axios\<close> (for a request sent at a time, the response or
  the transport failure, and the milliseconds it took; every exchange ends),
  \<^verbatim>\<open>JSON.stringify\<close> and \<^verbatim>\<open>JSON.parse\<close>, the timer behind
  \<^verbatim>\<open>setTimeout\<close> (for a requested delay and a starting time, the milliseconds until
  the callback runs) and \<^verbatim>\<open>uuidv4\<close>.
\<close>

record host =
  http :: "AxiosRequestConfig \<Rightarrow> int \<Rightarrow> (js_error + Response) \<times> nat"
  JSON_stringify :: "json \<Rightarrow> string"
  JSON_parse :: "string \<Rightarrow> js_error + json"
  timer :: "nat \<Rightarrow> int \<Rightarrow> nat"
  uuidv4 :: "int \<Rightarrow> string"

text \<open>
  The clock read by \<^verbatim>\<open>Date.now()\<close>, in milliseconds, and a log of what the run did:
  each executed request with the times it started and ended, each pause with the delay
  asked for and the times it started and ended. Time passes only in an HTTP exchange and
  in a pause.
\<close>

datatype event =
    Request int int int
  | Delay nat int int

record world =
  now :: int
  trace :: "event list"

text \<open>
  \<^verbatim>\<open>axios(config)\<close>: the exchange, and then the check of the response's status with
  \<^verbatim>\<open>config.validateStatus\<close>, whose failure is an error like a failure of the
  transport.
\<close>

definition axios :: "host \<Rightarrow> AxiosRequestConfig \<Rightarrow> int \<Rightarrow> (js_error + Response) \<times> nat" where
  "axios h config t =
    (case http h config t of
       (Inl e, latency) \<Rightarrow> (Inl e, latency)
     | (Inr resp, latency) \<Rightarrow>
         if validateStatus config (resp_status resp) then (Inr resp, latency)
         else (Inl (AxiosError (''Request failed with status code '' @
                                 number_to_string (resp_status resp))), latency))"

text \<open>
  \<^verbatim>\<open>field ? JSON.parse(replaceVariables(JSON.stringify(field), variables)) : undefined\<close>
\<close>

definition interpolate_field :: "host \<Rightarrow> json option \<Rightarrow> bag \<Rightarrow> js_error + json option" where
  "interpolate_field h field vars =
    (case field of
       None \<Rightarrow> Inr None
     | Some v \<Rightarrow>
         if json_truthy v then
           (case replaceVariables (JSON_stringify h v) vars of
              Inl e \<Rightarrow> Inl e
            | Inr text \<Rightarrow>
                (case JSON_parse h text of
                   Inl e \<Rightarrow> Inl e
                 | Inr parsed \<Rightarrow> Inr (Some parsed)))
         else Inr None)"

text \<open>The object literal \<^verbatim>\<open>config\<close> inside the \<^verbatim>\<open>try\<close> block, its properties in order.\<close>

definition build_config ::
  "host \<Rightarrow> RequestData \<Rightarrow> bag \<Rightarrow> string \<Rightarrow> js_error + AxiosRequestConfig" where
  "build_config h request vars resolved_url =
    (case interpolate_field h (req_headers request) vars of
       Inl e \<Rightarrow> Inl e
     | Inr hs \<Rightarrow>
         (case interpolate_field h (req_body request) vars of
            Inl e \<Rightarrow> Inl e
          | Inr d \<Rightarrow>
              (case interpolate_field h (req_params request) vars of
                 Inl e \<Rightarrow> Inl e
               | Inr ps \<Rightarrow>
                   Inr \<lparr>cfg_method = req_method request, cfg_url = resolved_url,
                        cfg_headers = hs, cfg_data = d, cfg_params = ps,
                        validateStatus = (\<lambda>_. True)\<rparr>)))"

text \<open>
  One started request: the state its promise ends in and the time at which it does. The
  URL is interpolated while the \<^verbatim>\<open>result\<close> object is built, before the
  \<^verbatim>\<open>try\<close> block: an exception there rejects the promise. Inside the block every
  exception is caught and gives a failed result.
\<close>

definition start_request ::
  "host \<Rightarrow> RequestData \<Rightarrow> bag \<Rightarrow> int \<Rightarrow> RequestResult promise \<times> int" where
  "start_request h request vars startTime =
    (case replaceVariables (req_url request) vars of
       Inl e \<Rightarrow> (Rejected e, startTime)
     | Inr resolved_url \<Rightarrow>
         (case build_config h request vars resolved_url of
            Inl e \<Rightarrow>
              (Fulfilled \<lparr>requestId = req_id request, name = req_name request,
                  http_method = req_method request, url = resolved_url,
                  status = Failed, response = None, error = Some (message e),
                  duration = 0, timestamp = startTime\<rparr>, startTime)
          | Inr config \<Rightarrow>
              (case axios h config startTime of
                 (Inr resp, latency) \<Rightarrow>
                   (Fulfilled \<lparr>requestId = req_id request, name = req_name request,
                       http_method = req_method request, url = resolved_url,
                       status = Completed, response = Some resp, error = None,
                       duration = int latency, timestamp = startTime\<rparr>,
                    startTime + int latency)
               | (Inl e, latency) \<Rightarrow>
                   (Fulfilled \<lparr>requestId = req_id request, name = req_name request,
                       http_method = req_method request, url = resolved_url,
                       status = Failed, response = None, error = Some (message e),
                       duration = int latency, timestamp = startTime\<rparr>,
                    startTime + int latency))))"

text \<open>\<^verbatim>\<open>await executeRequest(request, variables)\<close>: the request runs to its end.\<close>

definition executeRequest ::
  "host \<Rightarrow> RequestData \<Rightarrow> bag \<Rightarrow> world \<Rightarrow> RequestResult promise \<times> world" where
  "executeRequest h request vars w =
    (case start_request h request vars (now w) of
       (p, finished) \<Rightarrow>
         (p, w\<lparr>now := finished,
               trace := trace w @ [Request (req_id request) (now w) finished]\<rparr>))"

section \<open>The run orchestrator\<close>

text \<open>\<^verbatim>\<open>await new Promise(resolve => setTimeout(resolve, d))\<close>\<close>

definition pause :: "host \<Rightarrow> nat \<Rightarrow> world \<Rightarrow> world" where
  "pause h d w =
    (let finished = now w + int (timer h d (now w))
     in w\<lparr>now := finished, trace := trace w @ [Delay d (now w) finished]\<rparr>)"

text \<open>
  The loop of the sequential mode over the requests still to run, with the results
  pushed so far. The delay is a number or absent, and \<^verbatim>\<open>if (options.delayBetweenRequests)\<close>
  holds for a number other than zero. An exception of \<^verbatim>\<open>executeRequest\<close> leaves the
  loop, since \<^verbatim>\<open>runCollection\<close> has no handler.
\<close>

fun run_sequential ::
  "host \<Rightarrow> RequestData list \<Rightarrow> RunOptions \<Rightarrow> RequestResult list \<Rightarrow> world
     \<Rightarrow> RequestResult list promise \<times> world" where
  "run_sequential h [] options collected w = (Fulfilled collected, w)"
| "run_sequential h (request # rest) options collected w =
     (case executeRequest h request (variables options) w of
        (Rejected e, w') \<Rightarrow> (Rejected e, w')
      | (Pending, w') \<Rightarrow> (Pending, w')
      | (Fulfilled result, w') \<Rightarrow>
          run_sequential h rest options (collected @ [result])
            (case delayBetweenRequests options of
               None \<Rightarrow> w'
             | Some d \<Rightarrow> if d \<noteq> 0 then pause h d w' else w'))"

text \<open>
  The parallel mode starts every request at once, \<^verbatim>\<open>requests.map(...)\<close>, and awaits
  \<^verbatim>\<open>Promise.all\<close>. The promises settle in the order of their finishing times, equal
  times in the order of dispatch. \<^verbatim>\<open>Promise.all\<close> keeps an array of values with
  one slot per promise: a fulfilled promise stores its value in the slot of its own
  index, the first rejected promise rejects the whole, and when every slot is filled the
  array is the result.
\<close>

definition completion_order ::
  "('a promise \<times> int) list \<Rightarrow> (nat \<times> 'a promise \<times> int) list" where
  "completion_order promises =
     sort_key (\<lambda>settlement. snd (snd settlement)) (zip [0..<length promises] promises)"

fun promise_all_settle ::
  "(nat \<times> 'a promise \<times> int) list \<Rightarrow> 'a option list \<Rightarrow> int \<Rightarrow> 'a list promise \<times> int" where
  "promise_all_settle [] slots t =
     (case those slots of Some vs \<Rightarrow> (Fulfilled vs, t) | None \<Rightarrow> (Pending, t))"
| "promise_all_settle ((i, Fulfilled v, finished) # rest) slots t =
     promise_all_settle rest (slots[i := Some v]) finished"
| "promise_all_settle ((i, Rejected e, finished) # rest) slots t = (Rejected e, finished)"
| "promise_all_settle ((i, Pending, finished) # rest) slots t = promise_all_settle rest slots t"

definition Promise_all :: "('a promise \<times> int) list \<Rightarrow> int \<Rightarrow> 'a list promise \<times> int" where
  "Promise_all promises t =
     promise_all_settle (completion_order promises) (replicate (length promises) None) t"

definition run_parallel ::
  "host \<Rightarrow> RequestData list \<Rightarrow> bag \<Rightarrow> world \<Rightarrow> RequestResult list promise \<times> world" where
  "run_parallel h requests vars w =
    (let promises = map (\<lambda>request. start_request h request vars (now w)) requests;
         ran = map (\<lambda>(request, p, finished). Request (req_id request) (now w) finished)
                 (sort_key (\<lambda>(request, p, finished). finished) (zip requests promises))
     in case Promise_all promises (now w) of
          (settledResults, t) \<Rightarrow> (settledResults, w\<lparr>now := t, trace := trace w @ ran\<rparr>))"

text \<open>\<^verbatim>\<open>runCollection\<close>, with the summary and the status of the run.\<close>

definition runCollection ::
  "host \<Rightarrow> RequestData list \<Rightarrow> RunOptions \<Rightarrow> world \<Rightarrow> RunOutput promise \<times> world" where
  "runCollection h requests options w =
    (let run_id = uuidv4 h (now w);
         runStartTime = now w
     in case (if executionMode options = Sequential
              then run_sequential h requests options [] w
              else run_parallel h requests (variables options) w) of
          (Rejected e, w') \<Rightarrow> (Rejected e, w')
        | (Pending, w') \<Rightarrow> (Pending, w')
        | (Fulfilled rs, w') \<Rightarrow>
            (let smry = \<lparr>total = length requests,
                         completed = length (filter (\<lambda>r. status r = Completed) rs),
                         failed = length (filter (\<lambda>r. status r = Failed) rs),
                         totalDuration = now w' - runStartTime\<rparr>
             in (Fulfilled \<lparr>runId = run_id,
                            run_status = (if failed smry > 0 then RunFailed else RunCompleted),
                            results = rs,
                            summary = smry\<rparr>, w')))"

text \<open>
  Two readings of the log, for stating the order of a run: what each event was, without
  its times (a request by its id, a pause by the delay asked for); and that the events
  follow one another from a time to a time, each starting when the one before it ended.
\<close>

fun step_of :: "event \<Rightarrow> int + nat" where
  "step_of (Request i started finished) = Inl i"
| "step_of (Delay d started finished) = Inr d"

fun serialized :: "int \<Rightarrow> event list \<Rightarrow> int \<Rightarrow> bool" where
  "serialized t [] t' = (t = t')"
| "serialized t (Request i started finished # evs) t' =
     (started = t \<and> started \<le> finished \<and> serialized finished evs t')"
| "serialized t (Delay d started finished # evs) t' =
     (started = t \<and> started \<le> finished \<and> serialized finished evs t')"

section \<open>The script runner\<close>

text \<open>
  \<^verbatim>\<open>scriptRunner.ts\<close> runs the script in an isolate of the library
  \<^verbatim>\<open>isolated-vm\<close>. What the engine does with a text is a parameter of the model:
  what evaluating the text gives in a new context of a new isolate with a memory limit,
  whose global object holds references to host values under their names, within a
  timeout; what copying a returned value out of the isolate gives; and the message of the
  SyntaxError for a text that does not compile. An evaluation returns a value or throws,
  and when it throws the library may have disposed the isolate already, as it does at the
  memory limit. Creating the isolate and its context and setting the global are taken to
  succeed.
\<close>

datatype eval_outcome =
    Returned json
  | Threw js_error bool

record engine =
  eval_code :: "nat \<Rightarrow> (string \<times> bag) list \<Rightarrow> string \<Rightarrow> nat \<Rightarrow> eval_outcome"
  copy_value :: "json \<Rightarrow> js_error + bag"
  syntax_error_message :: "string \<Rightarrow> string"

text \<open>
  \<^verbatim>\<open>context.eval(code, options)\<close> compiles the text as a script, not as the body of
  a function (that is \<^verbatim>\<open>context.evalClosure\<close>), and in a script a \<^verbatim>\<open>return\<close>
  statement outside a function is an error of syntax. A text whose last line, apart from
  white space, is the statement \<^verbatim>\<open>return pm;\<close> never compiles: nothing follows the
  statement, so it stands outside every function, or inside a function, a comment or a
  literal that the text opened and never closes. The engine throws a SyntaxError, with
  V8's message \<^verbatim>\<open>Illegal return statement\<close> when the rest of the text is in order, and
  evaluates nothing.
\<close>

definition is_white_space :: "char \<Rightarrow> bool" where
  "is_white_space c \<longleftrightarrow> c \<in> {CHR '' '', CHR 0x09, CHR 0x0A, CHR 0x0D}"

definition ends_in_return :: "string \<Rightarrow> bool" where
  "ends_in_return code \<longleftrightarrow>
     (let back = dropWhile is_white_space (rev code)
      in take 10 back = rev ''return pm;'' \<and>
         (case dropWhile (\<lambda>c. c = CHR '' '' \<or> c = CHR 0x09) (drop 10 back) of
            [] \<Rightarrow> True
          | c # before \<Rightarrow> c = CHR 0x0A \<or> c = CHR 0x0D))"

definition context_eval ::
  "engine \<Rightarrow> nat \<Rightarrow> (string \<times> bag) list \<Rightarrow> string \<Rightarrow> nat \<Rightarrow> eval_outcome" where
  "context_eval eng memoryLimit globals code timeout =
     (if ends_in_return code
      then Threw (SyntaxError (syntax_error_message eng code)) False
      else eval_code eng memoryLimit globals code timeout)"

text \<open>The result of \<^verbatim>\<open>runScript\<close>; its fields \<open>variables\<close> and \<open>error\<close> carry a prefix.\<close>

record ScriptRunResult =
  script_variables :: bag
  script_error :: "string option"

text \<open>The isolates of the process that are not disposed, and the next isolate to be made.\<close>

record vm =
  live_isolates :: "nat list"
  next_isolate :: nat

definition new_isolate :: "vm \<Rightarrow> nat \<times> vm" where
  "new_isolate m =
     (next_isolate m,
      m\<lparr>live_isolates := next_isolate m # live_isolates m, next_isolate := next_isolate m + 1\<rparr>)"

definition dispose :: "nat \<Rightarrow> vm \<Rightarrow> vm" where
  "dispose isolate m = m\<lparr>live_isolates := removeAll isolate (live_isolates m)\<rparr>"

definition isDisposed :: "nat \<Rightarrow> vm \<Rightarrow> bool" where
  "isDisposed isolate m \<longleftrightarrow> isolate \<notin> set (live_isolates m)"

text \<open>The template literal \<^verbatim>\<open>code\<close>, with its line breaks and indentation.\<close>

definition script_code :: "string \<Rightarrow> string" where
  "script_code script =
     [CHR 0x0A] @ ''      // The user script will run here'' @ [CHR 0x0A] @
     ''      '' @ script @ [CHR 0x0A] @
     ''      // Return the modified '' @ [CHR 0x27] @ ''pm'' @ [CHR 0x27] @ '' object'' @ [CHR 0x0A] @
     ''      return pm;'' @ [CHR 0x0A] @
     ''    ''"

text \<open>
  \<^verbatim>\<open>runScript\<close>. The script is a string or absent, and \<^verbatim>\<open>!script\<close> holds for an
  absent and for an empty one. The \<^verbatim>\<open>finally\<close> block disposes the isolate unless it
  is disposed already.
\<close>

definition runScript ::
  "engine \<Rightarrow> string option \<Rightarrow> bag \<Rightarrow> vm \<Rightarrow> ScriptRunResult promise \<times> vm" where
  "runScript eng script vars m =
    (case (case script of None \<Rightarrow> None | Some text \<Rightarrow> if text = [] then None else Some text) of
       None \<Rightarrow> (Fulfilled \<lparr>script_variables = vars, script_error = None\<rparr>, m)
     | Some text \<Rightarrow>
       (case new_isolate m of
          (isolate, m1) \<Rightarrow>
            (case context_eval eng 128 [(''pm'', vars)] (script_code text) 1000 of
               Returned result \<Rightarrow>
                 (case copy_value eng result of
                    Inr newVariables \<Rightarrow>
                      (Fulfilled \<lparr>script_variables = newVariables, script_error = None\<rparr>,
                       if isDisposed isolate m1 then m1 else dispose isolate m1)
                  | Inl err \<Rightarrow>
                      (Fulfilled \<lparr>script_variables = vars, script_error = Some (message err)\<rparr>,
                       if isDisposed isolate m1 then m1 else dispose isolate m1))
             | Threw err disposed \<Rightarrow>
                 (let m2 = (if disposed then dispose isolate m1 else m1)
                  in (Fulfilled \<lparr>script_variables = vars, script_error = Some (message err)\<rparr>,
                      if isDisposed isolate m2 then m2 else dispose isolate m2)))))"

section \<open>An example host\<close>

text \<open>
  A host on which the runner can be evaluated. It answers \<^verbatim>\<open>http://slow/...\<close> after
  50 ms with status 200 and \<^verbatim>\<open>http://fast/...\<close> after 10 ms with status 404; it
  refuses every other connection after 5 ms. Its timer is exact. Its JSON functions know
  the empty object only.
\<close>

definition example_host :: host where
  "example_host =
    \<lparr>http = (\<lambda>config t.
        if take 12 (cfg_url config) = ''http://slow/'' then
          (Inr \<lparr>resp_status = safe_int 200, statusText = ''OK'', resp_data = JStr ''done'',
                resp_headers = JObj []\<rparr>, 50)
        else if take 12 (cfg_url config) = ''http://fast/'' then
          (Inr \<lparr>resp_status = safe_int 404, statusText = ''Not Found'', resp_data = JNull,
                resp_headers = JObj []\<rparr>, 10)
        else (Inl (AxiosError ''connect ECONNREFUSED''), 5)),
     JSON_stringify = (\<lambda>v. ''{}''),
     JSON_parse = (\<lambda>text. if text = ''{}'' then Inr (JObj [])
                            else Inl (SyntaxError ''Unexpected token in JSON'')),
     timer = (\<lambda>d t. d),
     uuidv4 = (\<lambda>t. ''3b241101-e2bb-4255-8caf-4136c566a962'')\<rparr>"

definition example_request :: "int \<Rightarrow> string \<Rightarrow> RequestData" where
  "example_request i u =
    \<lparr>req_id = i, req_name = ''request'', req_method = ''GET'', req_url = u,
     req_headers = None, req_body = None, req_params = None\<rparr>"

definition example_options :: "execution_mode \<Rightarrow> nat option \<Rightarrow> bag \<Rightarrow> RunOptions" where
  "example_options mode delay vars =
    \<lparr>executionMode = mode, delayBetweenRequests = delay, environment = ''development'',
     variables = vars\<rparr>"

section \<open>Properties of the interpolation\<close>

subsection \<open>The matcher\<close>

lemma not_word_braces [simp]: "\<not> is_word CHR ''{''" "\<not> is_word CHR ''}''"
  by (simp_all add: is_word_def)

lemma take_matched:
  "take (length n + 4) (a # b # n @ c # d # t) = a # b # n @ [c, d]"
proof -
  have "a # b # n @ c # d # t = (a # b # n @ [c, d]) @ t" by simp
  moreover have "length (a # b # n @ [c, d]) = length n + 4" by simp
  ultimately show ?thesis by (metis append_eq_conv_conj)
qed

lemma match_placeholder_SomeD:
  assumes "match_placeholder s = Some (m, n, t)"
  shows "is_identifier n \<and> m = placeholder n \<and> s = placeholder n @ t"
proof -
  from assms obtain rest where s: "s = CHR ''{'' # CHR ''{'' # rest"
    by (auto simp: match_placeholder_def split: list.splits if_splits)
  from assms s have n: "n = takeWhile is_word rest" and ne: "n \<noteq> []"
    and d: "dropWhile is_word rest = CHR ''}'' # CHR ''}'' # t"
    and m: "m = take (length n + 4) s"
    by (auto simp: match_placeholder_def Let_def split: list.splits if_splits)
  have rest: "rest = n @ CHR ''}'' # CHR ''}'' # t"
    using takeWhile_dropWhile_id [of is_word rest] n d by simp
  have "list_all is_word n"
    unfolding n list_all_iff by (auto dest: set_takeWhileD)
  with ne have "is_identifier n" by (simp add: is_identifier_def)
  moreover have "s = placeholder n @ t"
    using s rest by (simp add: placeholder_def)
  moreover have "m = placeholder n"
    using m s rest by (simp add: placeholder_def take_matched)
  ultimately show ?thesis by simp
qed

lemma match_placeholder_here:
  assumes "is_identifier n"
  shows "match_placeholder (placeholder n @ t) = Some (placeholder n, n, t)"
proof -
  from assms have ne: "n \<noteq> []" and w: "\<forall>c \<in> set n. is_word c"
    by (simp_all add: is_identifier_def list_all_iff)
  have tw: "takeWhile is_word (n @ CHR ''}'' # CHR ''}'' # t) = n"
    using w by (simp add: takeWhile_append2)
  have dw: "dropWhile is_word (n @ CHR ''}'' # CHR ''}'' # t) = CHR ''}'' # CHR ''}'' # t"
    using w by (simp add: dropWhile_append2)
  show ?thesis
    using ne tw dw by (simp add: match_placeholder_def placeholder_def Let_def take_matched)
qed

lemma match_placeholder_None_append:
  assumes "s \<noteq> []" and "match_placeholder s = None"
  shows "match_placeholder (s @ CHR ''{'' # CHR ''{'' # u) = None"
  using assms
  by (cases s; cases "tl s")
     (auto simp: match_placeholder_def Let_def takeWhile_append dropWhile_append
           split: list.splits if_splits)

lemma placeholder_Cons: "placeholder n @ t = CHR ''{'' # CHR ''{'' # n @ CHR ''}'' # CHR ''}'' # t"
  by (simp add: placeholder_def)

lemma replace_global_at_placeholder:
  assumes "is_identifier n"
  shows "replace_global f (placeholder n @ post) =
     (case f (placeholder n) n of
        Inl e \<Rightarrow> Inl e
      | Inr r \<Rightarrow> (case replace_global f post of Inl e \<Rightarrow> Inl e | Inr b \<Rightarrow> Inr (r @ b)))"
proof -
  have "match_placeholder (CHR ''{'' # CHR ''{'' # n @ CHR ''}'' # CHR ''}'' # post)
          = Some (placeholder n, n, post)"
    using match_placeholder_here [OF assms, of post] by (simp only: placeholder_Cons)
  then show ?thesis
    by (simp add: placeholder_Cons replace_global.simps(2) split: sum.splits)
qed

lemma replace_global_around_placeholder:
  assumes "is_identifier n"
  shows "replace_global f (pre @ placeholder n @ post) =
     (case replace_global f pre of
        Inl e \<Rightarrow> Inl e
      | Inr a \<Rightarrow>
          (case f (placeholder n) n of
             Inl e \<Rightarrow> Inl e
           | Inr r \<Rightarrow>
               (case replace_global f post of
                  Inl e \<Rightarrow> Inl e
                | Inr b \<Rightarrow> Inr (a @ r @ b))))"
proof (induction f pre rule: replace_global.induct)
  case (1 f)
  show ?case
    by (simp add: replace_global_at_placeholder [OF assms] split: sum.splits)
next
  case (2 f c cs)
  show ?case
  proof (cases "match_placeholder (c # cs)")
    case None
    then have "match_placeholder ((c # cs) @ CHR ''{'' # CHR ''{'' # n @ CHR ''}'' # CHR ''}'' # post) = None"
      by (intro match_placeholder_None_append) simp_all
    then have ext: "match_placeholder (c # cs @ placeholder n @ post) = None"
      by (simp add: placeholder_Cons)
    show ?thesis
      using None ext "2.IH"(1) [OF None]
      by (simp add: replace_global.simps(2) split: sum.splits)
  next
    case (Some m)
    obtain mt nm t where m: "m = (mt, nm, t)" by (cases m) auto
    from match_placeholder_SomeD [OF Some [unfolded m]]
    have idn: "is_identifier nm" and mt: "mt = placeholder nm" and cs: "c # cs = placeholder nm @ t"
      by simp_all
    have ext: "match_placeholder (c # cs @ placeholder n @ post) = Some (mt, nm, t @ placeholder n @ post)"
      using match_placeholder_here [OF idn, of "t @ placeholder n @ post"] cs mt
      by (metis append_Cons append_assoc)
    show ?thesis
    proof (cases "f mt nm")
      case (Inl e)
      then show ?thesis
        using Some ext m by (simp add: replace_global.simps(2))
    next
      case (Inr r)
      have "replace_global f (snd (snd m) @ placeholder n @ post) = 
        (case replace_global f (snd (snd m)) of
        Inl e \<Rightarrow> Inl e
      | Inr a \<Rightarrow>
          (case f (placeholder n) n of
             Inl e \<Rightarrow> Inl e
           | Inr r \<Rightarrow>
               (case replace_global f post of
                  Inl e \<Rightarrow> Inl e
                | Inr b \<Rightarrow> Inr (a @ r @ b))))"
        using "2.IH"(2) [OF Some, of r] Inr m by simp
      then show ?thesis
        using Some ext m Inr by (simp add: replace_global.simps(2) split: sum.splits)
    qed
  qed
qed

lemma replace_global_no_placeholder:
  "\<not> has_placeholder s \<Longrightarrow> replace_global f s = Inr s"
  by (induction s) (auto simp: replace_global.simps(2) split: option.splits)

lemma has_placeholder_append:
  "has_placeholder s \<Longrightarrow> has_placeholder (pre @ s)"
  by (induction pre) simp_all

lemma has_placeholder_iff:
  "has_placeholder s \<longleftrightarrow> (\<exists>pre n post. is_identifier n \<and> s = pre @ placeholder n @ post)"
proof
  show "has_placeholder s \<Longrightarrow> \<exists>pre n post. is_identifier n \<and> s = pre @ placeholder n @ post"
  proof (induction s)
    case Nil
    then show ?case by simp
  next
    case (Cons c cs)
    show ?case
    proof (cases "match_placeholder (c # cs)")
      case None
      with Cons.prems have "has_placeholder cs" by simp
      from Cons.IH [OF this] obtain pre n post
        where "is_identifier n" "cs = pre @ placeholder n @ post" by blast
      then have "is_identifier n \<and> c # cs = (c # pre) @ placeholder n @ post" by simp
      then show ?thesis by blast
    next
      case (Some m)
      obtain mt nm t where m: "m = (mt, nm, t)" by (cases m) auto
      from match_placeholder_SomeD [OF Some [unfolded m]]
      have "is_identifier nm \<and> c # cs = [] @ placeholder nm @ t" by simp
      then show ?thesis by blast
    qed
  qed
next
  assume "\<exists>pre n post. is_identifier n \<and> s = pre @ placeholder n @ post"
  then obtain pre n post where idn: "is_identifier n" and s: "s = pre @ placeholder n @ post"
    by blast
  have "has_placeholder (placeholder n @ post)"
    using match_placeholder_here [OF idn, of post] by (simp add: placeholder_Cons)
  then show "has_placeholder s"
    unfolding s by (rule has_placeholder_append)
qed

lemma replaceVariables_replace_global:
  "replaceVariables str vars = replace_global (substitute vars) str"
  by (simp add: replaceVariables_def)

subsection \<open>The callback\<close>

lemma get_property_own: "map_of vars ident = Some v \<Longrightarrow> get_property vars ident = Data v"
  by (simp add: get_property_def)

lemma get_property_absent:
  assumes "map_of vars ident = None" and "ident \<notin> set inherited_names"
  shows "get_property vars ident = Undefined"
proof -
  from assms(2) have "map_of object_prototype ident = None"
    by (simp add: inherited_names_def map_of_eq_None_iff)
  with assms(1) show ?thesis by (simp add: get_property_def)
qed


lemma substitute_falsy:
  "map_of vars ident = Some v \<Longrightarrow> \<not> json_truthy v \<Longrightarrow> substitute vars m ident = Inr m"
  by (simp add: substitute_def get_property_own)

lemma substitute_absent:
  "map_of vars ident = None \<Longrightarrow> ident \<notin> set inherited_names \<Longrightarrow>
     substitute vars m ident = Inr m"
  by (simp add: substitute_def get_property_absent)

text \<open>Equations for evaluating the interpolation on a given string.\<close>

lemmas eval_match = match_placeholder_def is_word_def Let_def

lemmas eval_replace = replaceVariables_def replace_global.simps(2) substitute_def get_property_def
  object_prototype_def inherited_names_def placeholder_def is_identifier_def number_to_string_def
  decimal_def safe_int_inverse digits.simps digit_char_def

subsection \<open>When the interpolation raises nothing\<close>




subsection \<open>What an occurrence of a placeholder becomes\<close>




text \<open>
  Claim C8: a string in which the pattern \<open>{{identifier}}\<close> occurs nowhere is returned
  unchanged, for every bag.
\<close>

theorem replaceVariables_identity_without_placeholder:
  assumes "\<not> (\<exists>pre ident post. is_identifier ident \<and> str = pre @ placeholder ident @ post)"
  shows "replaceVariables str vars = Inr str"
proof -
  from assms have "\<not> has_placeholder str"
    unfolding has_placeholder_iff by blast
  then show ?thesis
    by (simp add: replaceVariables_replace_global replace_global_no_placeholder)
qed

text \<open>The theorem of C8 at a URL without a placeholder.\<close>

theorem replaceVariables_identity_witness:
  "replaceVariables ''http://localhost:3001/users?page=2'' [(''baseUrl'', JStr ''http://localhost:3001'')]
     = Inr ''http://localhost:3001/users?page=2''"
proof -
  have "\<not> has_placeholder ''http://localhost:3001/users?page=2''"
    by (simp add: eval_match)
  then have "\<not> (\<exists>pre ident post. is_identifier ident \<and>
      ''http://localhost:3001/users?page=2'' = pre @ placeholder ident @ post)"
    unfolding has_placeholder_iff by blast
  then show ?thesis
    by (rule replaceVariables_identity_without_placeholder)
qed

text \<open>
  Claim C10, as the code has it: where the identifier of a placeholder is a key of the bag
  and its value is 0, false, the empty string or null, every occurrence of the placeholder
  stays in the output as it is, between the interpolations of what stands before and
  after it. For an identifier that is not the name of an inherited property this is the
  output for the bag without the key, on every string.
\<close>

theorem replaceVariables_keeps_falsy:
  assumes "is_identifier ident"
    and "map_of vars ident = Some v"
    and "v \<in> {JNum (safe_int 0), JBool False, JStr [], JNull}"
  shows "(\<forall>pre post a b.
            replaceVariables pre vars = Inr a \<and> replaceVariables post vars = Inr b \<longrightarrow>
            replaceVariables (pre @ placeholder ident @ post) vars
              = Inr (a @ placeholder ident @ b))
       \<and> (ident \<notin> set inherited_names \<longrightarrow>
            (\<forall>str. replaceVariables str vars
                     = replaceVariables str (filter (\<lambda>kv. fst kv \<noteq> ident) vars)))"
proof (intro conjI allI impI)
  from assms(3) have falsy: "\<not> json_truthy v" by (auto simp: safe_int_inverse)
  fix pre post a b
  assume "replaceVariables pre vars = Inr a \<and> replaceVariables post vars = Inr b"
  then show "replaceVariables (pre @ placeholder ident @ post) vars
              = Inr (a @ placeholder ident @ b)"
    using substitute_falsy [OF assms(2) falsy, of "placeholder ident"]
    by (simp add: replaceVariables_replace_global replace_global_around_placeholder [OF assms(1)])
next
  from assms(3) have falsy: "\<not> json_truthy v" by (auto simp: safe_int_inverse)
  fix str
  assume ninh: "ident \<notin> set inherited_names"
  let ?vars' = "filter (\<lambda>kv. fst kv \<noteq> ident) vars"
  have other: "map_of ?vars' k = map_of vars k" if "k \<noteq> ident" for k
    using that by (induction vars) auto
  have gone: "map_of ?vars' ident = None"
    by (induction vars) auto
  have "substitute vars m k = substitute ?vars' m k" for m k
  proof (cases "k = ident")
    case True
    then show ?thesis
      using substitute_falsy [OF assms(2) falsy, of m] substitute_absent [OF gone ninh, of m]
      by simp
  next
    case False
    then show ?thesis
      by (simp add: substitute_def get_property_def other)
  qed
  then have "substitute vars = substitute ?vars'"
    by (intro ext)
  then show "replaceVariables str vars = replaceVariables str ?vars'"
    by (simp add: replaceVariables_replace_global)
qed

text \<open>
  Claim C10 as stated fails where it says that the output is the one for an absent key:
  with the key \<open>hasOwnProperty\<close> set to 0 the placeholder stays, and without the key it
  is replaced by the text of the function that every object inherits under that name.
\<close>

theorem replaceVariables_falsy_not_as_absent_counterexample:
  "map_of [(''hasOwnProperty'', JNum (safe_int 0))] ''hasOwnProperty'' = Some (JNum (safe_int 0))
   \<and> replaceVariables ''{{hasOwnProperty}}'' [(''hasOwnProperty'', JNum (safe_int 0))]
       = Inr ''{{hasOwnProperty}}''
   \<and> replaceVariables ''{{hasOwnProperty}}'' []
       = Inr ''function hasOwnProperty() { [native code] }''"
  by (simp add: eval_match eval_replace)

text \<open>The theorem of C10 at a bag in which \<open>page\<close> is 0.\<close>

theorem replaceVariables_keeps_falsy_witness:
  "replaceVariables (''/users?page='' @ placeholder ''page'' @ ''&active={{active}}'')
       [(''page'', JNum (safe_int 0)), (''active'', JBool True)]
     = Inr (''/users?page='' @ placeholder ''page'' @ ''&active=true'')
   \<and> replaceVariables ''{{page}}/{{active}}'' [(''page'', JNum (safe_int 0)), (''active'', JBool True)]
     = replaceVariables ''{{page}}/{{active}}''
         (filter (\<lambda>kv. fst kv \<noteq> ''page'') [(''page'', JNum (safe_int 0)), (''active'', JBool True)])"
proof -
  let ?vars = "[(''page'', JNum (safe_int 0)), (''active'', JBool True)]"
  have idn: "is_identifier ''page''"
    by (simp add: is_identifier_def is_word_def)
  have own: "map_of ?vars ''page'' = Some (JNum (safe_int 0))" by simp
  have v: "JNum (safe_int 0) \<in> {JNum (safe_int 0), JBool False, JStr [], JNull}" by simp
  have pre: "replaceVariables ''/users?page='' ?vars = Inr ''/users?page=''"
    by (simp add: eval_match eval_replace)
  have post: "replaceVariables ''&active={{active}}'' ?vars = Inr ''&active=true''"
    by (simp add: eval_match eval_replace)
  have ninh: "''page'' \<notin> set inherited_names"
    by (simp add: inherited_names_def object_prototype_def)
  note T = replaceVariables_keeps_falsy [OF idn own v]
  from T pre post
  have 1: "replaceVariables (''/users?page='' @ placeholder ''page'' @ ''&active={{active}}'') ?vars
     = Inr (''/users?page='' @ placeholder ''page'' @ ''&active=true'')"
    by blast
  from T ninh
  have 2: "replaceVariables ''{{page}}/{{active}}'' ?vars
     = replaceVariables ''{{page}}/{{active}}'' (filter (\<lambda>kv. fst kv \<noteq> ''page'') ?vars)"
    by blast
  from 1 2 show ?thesis by (rule conjI)
qed

section \<open>Properties of the request executor\<close>

lemma start_request_rejects:
  "replaceVariables (req_url request) vars = Inl e \<Longrightarrow>
     start_request h request vars t = (Rejected e, t)"
  by (simp add: start_request_def)

lemma start_request_fulfils:
  assumes "replaceVariables (req_url request) vars = Inr u"
  shows "\<exists>res. start_request h request vars t = (Fulfilled res, t + duration res)
           \<and> requestId res = req_id request \<and> url res = u \<and> timestamp res = t
           \<and> 0 \<le> duration res
           \<and> (status res = Completed \<and> response res \<noteq> None \<and> error res = None
              \<or> status res = Failed \<and> response res = None \<and> error res \<noteq> None)"
  using assms
  by (auto simp: start_request_def split: sum.splits prod.splits)

lemma start_request_not_pending: "fst (start_request h request vars t) \<noteq> Pending"
  by (auto simp: start_request_def split: sum.splits prod.splits)

lemma start_request_FulfilledD:
  assumes "start_request h request vars t = (Fulfilled res, fin)"
  shows "requestId res = req_id request \<and> fin = t + duration res \<and> 0 \<le> duration res
         \<and> (status res = Completed \<or> status res = Failed)
         \<and> (\<exists>u. replaceVariables (req_url request) vars = Inr u)"
  using assms
  by (auto simp: start_request_def split: sum.splits prod.splits)

lemma axios_any_status:
  "http h config t = (Inr resp, latency) \<Longrightarrow> validateStatus config = (\<lambda>_. True) \<Longrightarrow>
     axios h config t = (Inr resp, latency)"
  by (simp add: axios_def)

lemma start_request_completed:
  assumes "replaceVariables (req_url request) vars = Inr u"
    and "build_config h request vars u = Inr config"
    and "http h config t = (Inr resp, latency)"
  shows "\<exists>res. start_request h request vars t = (Fulfilled res, t + int latency)
           \<and> status res = Completed \<and> response res = Some resp \<and> error res = None"
proof -
  from assms(2) have "validateStatus config = (\<lambda>_. True)"
    by (auto simp: build_config_def split: sum.splits)
  with assms(3) have "axios h config t = (Inr resp, latency)"
    by (simp add: axios_any_status)
  with assms(1,2) show ?thesis
    by (simp add: start_request_def)
qed

lemma start_request_failed:
  assumes "replaceVariables (req_url request) vars = Inr u"
    and "build_config h request vars u = Inl e
         \<or> (\<exists>config latency. build_config h request vars u = Inr config
               \<and> http h config t = (Inl e, latency))"
  shows "\<exists>res fin. start_request h request vars t = (Fulfilled res, fin)
           \<and> status res = Failed \<and> response res = None \<and> error res = Some (message e)"
  using assms
  by (auto simp: start_request_def axios_def split: sum.splits prod.splits)

section \<open>Properties of the orchestrator\<close>

subsection \<open>Promise.all collects by position\<close>

lemma those_eq_Some: "those xs = Some ys \<longleftrightarrow> xs = map Some ys"
  by (induction xs arbitrary: ys) (auto split: option.splits)

lemma promise_all_settle_fulfilled:
  assumes "promise_all_settle evs slots t = (Fulfilled vs, t')"
    and "distinct (map fst evs)"
    and "\<forall>i \<in> fst ` set evs. i < length slots \<and> slots ! i = None"
  shows "length vs = length slots \<and>
         (\<forall>j < length slots.
            (case map_of evs j of
               Some (p, f) \<Rightarrow> p = Fulfilled (vs ! j)
             | None \<Rightarrow> slots ! j = Some (vs ! j)))"
  using assms
proof (induction evs slots t rule: promise_all_settle.induct)
  case (1 slots t)
  then have "slots = map Some vs"
    by (auto simp: those_eq_Some split: option.splits)
  then show ?case by simp
next
  case (2 i v finished rest slots t)
  have fresh: "i \<notin> fst ` set rest" and d: "distinct (map fst rest)"
    using "2.prems"(2) by auto
  have i: "i < length slots" using "2.prems"(3) by simp
  have "\<forall>k \<in> fst ` set rest. k < length (slots[i := Some v]) \<and> slots[i := Some v] ! k = None"
    using "2.prems"(3) fresh by (auto simp: nth_list_update)
  from "2.IH" [OF _ d this] "2.prems"(1)
  have len: "length vs = length slots"
    and ih: "\<forall>j < length slots.
            (case map_of rest j of
               Some (p, f) \<Rightarrow> p = Fulfilled (vs ! j)
             | None \<Rightarrow> slots[i := Some v] ! j = Some (vs ! j))"
    by simp_all
  have none: "map_of rest i = None"
    using fresh by (simp add: map_of_eq_None_iff)
  from ih i none have "v = vs ! i" by (auto simp: nth_list_update)
  with ih len show ?case
    by (auto simp: nth_list_update split: option.splits if_splits)
next
  case (3 i e finished rest slots t)
  then show ?case by simp
next
  case (4 i finished rest slots t)
  have fresh: "i \<notin> fst ` set rest" and d: "distinct (map fst rest)"
    using "4.prems"(2) by auto
  have i: "i < length slots" and empty: "slots ! i = None" using "4.prems"(3) by simp_all
  have "\<forall>k \<in> fst ` set rest. k < length slots \<and> slots ! k = None"
    using "4.prems"(3) by auto
  from "4.IH" [OF _ d this] "4.prems"(1)
  have len: "length vs = length slots"
    and ih: "\<forall>j < length slots.
            (case map_of rest j of
               Some (p, f) \<Rightarrow> p = Fulfilled (vs ! j)
             | None \<Rightarrow> slots ! j = Some (vs ! j))"
    by simp_all
  have none: "map_of rest i = None"
    using fresh by (simp add: map_of_eq_None_iff)
  from ih i none empty have False by auto
  then show ?case ..
qed

lemma distinct_fst_sort_key:
  "distinct (map fst xs) \<Longrightarrow> distinct (map fst (sort_key f xs))"
  by (simp add: distinct_map)

lemma completion_order_set:
  "set (completion_order promises) = set (zip [0..<length promises] promises)"
  by (simp add: completion_order_def)

lemma completion_order_distinct: "distinct (map fst (completion_order promises))"
  unfolding completion_order_def
  by (rule distinct_fst_sort_key) simp

lemma completion_order_lookup:
  assumes "j < length promises"
  shows "map_of (completion_order promises) j = Some (promises ! j)"
proof -
  have "(j, promises ! j) \<in> set (zip [0..<length promises] promises)"
    using assms by (auto simp: in_set_zip intro!: exI [of _ j])
  then have "(j, promises ! j) \<in> set (completion_order promises)"
    by (simp add: completion_order_set)
  then show ?thesis
    using completion_order_distinct [of promises] by simp
qed

lemma Promise_all_fulfilled:
  assumes "Promise_all promises t = (Fulfilled vs, t')"
  shows "map fst promises = map Fulfilled vs"
proof -
  let ?n = "length promises"
  have idx: "\<forall>i \<in> fst ` set (completion_order promises).
               i < length (replicate ?n (None :: 'a option)) \<and> replicate ?n (None :: 'a option) ! i = None"
    by (auto simp: completion_order_set dest: set_zip_leftD)
  from promise_all_settle_fulfilled [OF assms [unfolded Promise_all_def] completion_order_distinct idx]
  have len: "length vs = ?n"
    and each: "\<forall>j < ?n. (case map_of (completion_order promises) j of
               Some (p, f) \<Rightarrow> p = Fulfilled (vs ! j)
             | None \<Rightarrow> replicate ?n None ! j = Some (vs ! j))"
    by simp_all
  have "fst (promises ! j) = Fulfilled (vs ! j)" if "j < ?n" for j
    using each that by (cases "promises ! j") (auto simp: completion_order_lookup)
  with len show ?thesis
    by (intro nth_equalityI) simp_all
qed

lemma those_all_Some:
  "\<forall>x \<in> set xs. x \<noteq> None \<Longrightarrow> \<exists>ys. those xs = Some ys"
  by (induction xs) auto

lemma promise_all_settle_total:
  assumes "distinct (map fst evs)"
    and "\<forall>(i, p, f) \<in> set evs. i < length slots \<and> (\<exists>v. p = Fulfilled v)"
    and "\<forall>j < length slots. j \<notin> fst ` set evs \<longrightarrow> slots ! j \<noteq> None"
  shows "\<exists>vs t'. promise_all_settle evs slots t = (Fulfilled vs, t')"
  using assms
proof (induction evs slots t rule: promise_all_settle.induct)
  case (1 slots t)
  then have "\<forall>x \<in> set slots. x \<noteq> None"
    by (auto simp: in_set_conv_nth)
  from those_all_Some [OF this] show ?case by auto
next
  case (2 i v finished rest slots t)
  have "i < length slots" using "2.prems"(2) by simp
  then have "\<forall>j < length (slots[i := Some v]). j \<notin> fst ` set rest \<longrightarrow> slots[i := Some v] ! j \<noteq> None"
    using "2.prems"(3) by (auto simp: nth_list_update)
  moreover have "\<forall>(k, p, f) \<in> set rest. k < length (slots[i := Some v]) \<and> (\<exists>v. p = Fulfilled v)"
    using "2.prems"(2) by auto
  moreover have "distinct (map fst rest)" using "2.prems"(1) by simp
  ultimately show ?case using "2.IH" by simp
next
  case (3 i e finished rest slots t)
  then show ?case by auto
next
  case (4 i finished rest slots t)
  then show ?case by auto
qed

lemma Promise_all_total:
  assumes "\<forall>p \<in> set promises. \<exists>v. fst p = Fulfilled v"
  shows "\<exists>vs t'. Promise_all promises t = (Fulfilled vs, t')"
  unfolding Promise_all_def
proof (rule promise_all_settle_total [OF completion_order_distinct])
  show "\<forall>(i, p, f) \<in> set (completion_order promises).
          i < length (replicate (length promises) None) \<and> (\<exists>v. p = Fulfilled v)"
    using assms by (fastforce simp: completion_order_set dest: set_zip_leftD set_zip_rightD)
  show "\<forall>j < length (replicate (length promises) None).
          j \<notin> fst ` set (completion_order promises) \<longrightarrow> replicate (length promises) None ! j \<noteq> None"
  proof (intro allI impI)
    fix j assume "j < length (replicate (length promises) None)"
      and out: "j \<notin> fst ` set (completion_order promises)"
    then have "j < length promises" by simp
    from completion_order_lookup [OF this] have "j \<in> fst ` set (completion_order promises)"
      by (metis domI dom_map_of_conv_image_fst)
    with out show "replicate (length promises) None ! j \<noteq> None" by simp
  qed
qed

subsection \<open>One awaited request\<close>

lemma executeRequest_FulfilledD:
  assumes "executeRequest h request vars w = (Fulfilled res, w')"
  shows "requestId res = req_id request \<and> now w' = now w + duration res \<and> 0 \<le> duration res
         \<and> trace w' = trace w @ [Request (req_id request) (now w) (now w')]
         \<and> (status res = Completed \<or> status res = Failed)"
proof -
  obtain p fin where sr: "start_request h request vars (now w) = (p, fin)"
    by (cases "start_request h request vars (now w)")
  with assms have p: "p = Fulfilled res" and w': "w' = w\<lparr>now := fin, trace := trace w @ [Request (req_id request) (now w) fin]\<rparr>"
    by (auto simp: executeRequest_def)
  from start_request_FulfilledD [OF sr [unfolded p]] w' show ?thesis by simp
qed

lemma executeRequest_fulfils:
  assumes "replaceVariables (req_url request) vars = Inr u"
  shows "\<exists>res w'. executeRequest h request vars w = (Fulfilled res, w')"
  using start_request_fulfils [OF assms, of h "now w"]
  by (auto simp: executeRequest_def)

lemma executeRequest_rejects:
  assumes "replaceVariables (req_url request) vars = Inl e"
  shows "fst (executeRequest h request vars w) = Rejected e"
  using start_request_rejects [OF assms, of h "now w"]
  by (simp add: executeRequest_def)

subsection \<open>The sequential loop\<close>

lemma run_sequential_results:
  assumes "run_sequential h requests options collected w = (Fulfilled rs, w')"
  shows "\<exists>new. rs = collected @ new \<and> map requestId new = map req_id requests
           \<and> (\<forall>r \<in> set new. status r = Completed \<or> status r = Failed)"
  using assms
proof (induction requests arbitrary: collected w)
  case Nil
  then show ?case by simp
next
  case (Cons request rest)
  obtain p w1 where ex: "executeRequest h request (variables options) w = (p, w1)"
    by (cases "executeRequest h request (variables options) w")
  with Cons.prems obtain res where p: "p = Fulfilled res"
    by (cases p) auto
  let ?w2 = "case delayBetweenRequests options of None \<Rightarrow> w1
             | Some d \<Rightarrow> if d \<noteq> 0 then pause h d w1 else w1"
  from Cons.prems ex p
  have "run_sequential h rest options (collected @ [res]) ?w2 = (Fulfilled rs, w')"
    by simp
  from Cons.IH [OF this] obtain new
    where new: "rs = (collected @ [res]) @ new" "map requestId new = map req_id rest"
      "\<forall>r \<in> set new. status r = Completed \<or> status r = Failed"
    by blast
  from executeRequest_FulfilledD [OF ex [unfolded p]]
  have "requestId res = req_id request" "status res = Completed \<or> status res = Failed"
    by simp_all
  with new have "rs = collected @ (res # new) \<and> map requestId (res # new) = map req_id (request # rest)
     \<and> (\<forall>r \<in> set (res # new). status r = Completed \<or> status r = Failed)"
    by simp
  then show ?case by blast
qed

lemma run_sequential_total:
  assumes "\<forall>r \<in> set requests. \<exists>u. replaceVariables (req_url r) (variables options) = Inr u"
  shows "\<exists>rs w'. run_sequential h requests options collected w = (Fulfilled rs, w')"
  using assms
proof (induction requests arbitrary: collected w)
  case Nil
  then show ?case by simp
next
  case (Cons request rest)
  from Cons.prems obtain u where "replaceVariables (req_url request) (variables options) = Inr u"
    by auto
  from executeRequest_fulfils [OF this, of h w] obtain res w1
    where "executeRequest h request (variables options) w = (Fulfilled res, w1)" by blast
  moreover have "\<forall>r \<in> set rest. \<exists>u. replaceVariables (req_url r) (variables options) = Inr u"
    using Cons.prems by simp
  ultimately show ?case
    using Cons.IH by simp
qed

lemma pause_effect:
  "now (pause h d w) = now w + int (timer h d (now w))
   \<and> trace (pause h d w) = trace w @ [Delay d (now w) (now (pause h d w))]"
  by (simp add: pause_def Let_def)

lemma serialized_append:
  "serialized t evs t1 \<Longrightarrow> serialized t1 evs' t' \<Longrightarrow> serialized t (evs @ evs') t'"
  by (induction t evs t1 rule: serialized.induct) simp_all

lemma run_sequential_paced:
  assumes "run_sequential h requests options collected w = (Fulfilled rs, w')"
    and "delayBetweenRequests options = Some d" and "d \<noteq> 0"
  shows "\<exists>new evs. rs = collected @ new \<and> length new = length requests
           \<and> trace w' = trace w @ evs
           \<and> map step_of evs = concat (map (\<lambda>r. [Inl (req_id r), Inr d]) requests)
           \<and> serialized (now w) evs (now w')
           \<and> ((\<forall>t. d \<le> timer h d t) \<longrightarrow>
                sum_list (map duration new) + int (length requests) * int d \<le> now w' - now w)"
  using assms(1)
proof (induction requests arbitrary: collected w)
  case Nil
  then show ?case by simp
next
  case (Cons request rest)
  obtain p w1 where ex: "executeRequest h request (variables options) w = (p, w1)"
    by (cases "executeRequest h request (variables options) w")
  with Cons.prems obtain res where p: "p = Fulfilled res"
    by (cases p) auto
  let ?w2 = "pause h d w1"
  from Cons.prems ex p assms(2,3)
  have "run_sequential h rest options (collected @ [res]) ?w2 = (Fulfilled rs, w')"
    by simp
  from Cons.IH [OF this] obtain new evs
    where new: "rs = (collected @ [res]) @ new" "length new = length rest"
      and tr: "trace w' = trace ?w2 @ evs"
      and steps: "map step_of evs = concat (map (\<lambda>r. [Inl (req_id r), Inr d]) rest)"
      and ser: "serialized (now ?w2) evs (now w')"
      and dur: "(\<forall>t. d \<le> timer h d t) \<longrightarrow>
                sum_list (map duration new) + int (length rest) * int d \<le> now w' - now ?w2"
    by blast
  from executeRequest_FulfilledD [OF ex [unfolded p]]
  have w1: "now w1 = now w + duration res" "0 \<le> duration res"
    "trace w1 = trace w @ [Request (req_id request) (now w) (now w1)]"
    by simp_all
  note pz = pause_effect [of h d w1]
  let ?evs = "Request (req_id request) (now w) (now w1) # Delay d (now w1) (now ?w2) # evs"
  have 1: "rs = collected @ (res # new)" "length (res # new) = length (request # rest)"
    using new by simp_all
  have 2: "trace w' = trace w @ ?evs"
    using tr pz w1 by simp
  have 3: "map step_of ?evs = concat (map (\<lambda>r. [Inl (req_id r), Inr d]) (request # rest))"
    using steps by simp
  have 4: "serialized (now w) ?evs (now w')"
    using ser pz w1 by simp
  have 5: "(\<forall>t. d \<le> timer h d t) \<longrightarrow>
       sum_list (map duration (res # new)) + int (length (request # rest)) * int d \<le> now w' - now w"
  proof
    assume t: "\<forall>t. d \<le> timer h d t"
    then have "int d \<le> int (timer h d (now w1))" by simp
    with pz have "now w1 + int d \<le> now ?w2" by simp
    moreover from dur t have "sum_list (map duration new) + int (length rest) * int d \<le> now w' - now ?w2"
      by blast
    ultimately show "sum_list (map duration (res # new)) + int (length (request # rest)) * int d \<le> now w' - now w"
      using w1 by (simp add: algebra_simps)
  qed
  from 1 2 3 4 5 show ?case by blast
qed

subsection \<open>The parallel mode\<close>

lemma run_parallel_results:
  assumes "run_parallel h requests vars w = (Fulfilled rs, w')"
  shows "map requestId rs = map req_id requests
         \<and> (\<forall>r \<in> set rs. status r = Completed \<or> status r = Failed)"
proof -
  let ?promises = "map (\<lambda>request. start_request h request vars (now w)) requests"
  from assms obtain t where "Promise_all ?promises (now w) = (Fulfilled rs, t)"
    by (auto simp: run_parallel_def Let_def split: prod.splits)
  from Promise_all_fulfilled [OF this]
  have eq: "map fst ?promises = map Fulfilled rs" .
  then have len: "length rs = length requests"
    by (metis length_map)
  have each: "requestId (rs ! j) = req_id (requests ! j)
              \<and> (status (rs ! j) = Completed \<or> status (rs ! j) = Failed)" if "j < length requests" for j
  proof -
    from eq that len have "fst (start_request h (requests ! j) vars (now w)) = Fulfilled (rs ! j)"
      by (metis (no_types, lifting) length_map nth_map)
    then obtain fin where "start_request h (requests ! j) vars (now w) = (Fulfilled (rs ! j), fin)"
      by (cases "start_request h (requests ! j) vars (now w)") auto
    from start_request_FulfilledD [OF this] show ?thesis by simp
  qed
  have "map requestId rs = map req_id requests"
    using len each by (intro nth_equalityI) simp_all
  moreover have "\<forall>r \<in> set rs. status r = Completed \<or> status r = Failed"
    by (metis request_status.exhaust)
  ultimately show ?thesis by simp
qed

lemma run_parallel_total:
  assumes "\<forall>r \<in> set requests. \<exists>u. replaceVariables (req_url r) vars = Inr u"
  shows "\<exists>rs w'. run_parallel h requests vars w = (Fulfilled rs, w')"
proof -
  let ?promises = "map (\<lambda>request. start_request h request vars (now w)) requests"
  have "\<forall>p \<in> set ?promises. \<exists>v. fst p = Fulfilled v"
  proof
    fix p assume "p \<in> set ?promises"
    then obtain r where r: "r \<in> set requests" and p: "p = start_request h r vars (now w)"
      by auto
    from assms r obtain u where "replaceVariables (req_url r) vars = Inr u" by auto
    from start_request_fulfils [OF this, of h "now w"] p
    show "\<exists>v. fst p = Fulfilled v" by auto
  qed
  from Promise_all_total [OF this, of "now w"] show ?thesis
    by (auto simp: run_parallel_def Let_def)
qed

subsection \<open>The whole run\<close>

lemma runCollection_FulfilledD:
  assumes "runCollection h requests options w = (Fulfilled out, w')"
  shows "(if executionMode options = Sequential
          then run_sequential h requests options [] w
          else run_parallel h requests (variables options) w) = (Fulfilled (results out), w')
         \<and> total (summary out) = length requests
         \<and> completed (summary out) = length (filter (\<lambda>r. status r = Completed) (results out))
         \<and> failed (summary out) = length (filter (\<lambda>r. status r = Failed) (results out))
         \<and> totalDuration (summary out) = now w' - now w
         \<and> run_status out = (if failed (summary out) > 0 then RunFailed else RunCompleted)"
  using assms
  by (auto simp: runCollection_def Let_def split: prod.splits promise.splits if_splits)

lemma runCollection_results:
  assumes "runCollection h requests options w = (Fulfilled out, w')"
  shows "map requestId (results out) = map req_id requests"
proof (cases "executionMode options = Sequential")
  case True
  with runCollection_FulfilledD [OF assms]
  have "run_sequential h requests options [] w = (Fulfilled (results out), w')" by simp
  from run_sequential_results [OF this] show ?thesis by auto
next
  case False
  with runCollection_FulfilledD [OF assms]
  have "run_parallel h requests (variables options) w = (Fulfilled (results out), w')" by simp
  from run_parallel_results [OF this] show ?thesis by simp
qed

lemma runCollection_total:
  assumes "\<forall>r \<in> set requests. \<exists>u. replaceVariables (req_url r) (variables options) = Inr u"
  shows "\<exists>out w'. runCollection h requests options w = (Fulfilled out, w')"
proof (cases "executionMode options = Sequential")
  case True
  from run_sequential_total [OF assms, of h "[]" w] obtain rs w'
    where "run_sequential h requests options [] w = (Fulfilled rs, w')" by blast
  with True show ?thesis
    by (simp add: runCollection_def Let_def)
next
  case False
  from run_parallel_total [OF assms, of h w] obtain rs w'
    where "run_parallel h requests (variables options) w = (Fulfilled rs, w')" by blast
  with False show ?thesis
    by (simp add: runCollection_def Let_def)
qed

lemma runCollection_summary_invariants:
  assumes "runCollection h requests options w = (Fulfilled out, w')"
  shows "total (summary out) = length requests
         \<and> length (results out) = length requests
         \<and> completed (summary out) + failed (summary out) = total (summary out)
         \<and> (run_status out = RunFailed \<longleftrightarrow> failed (summary out) > 0)"
proof -
  note D = runCollection_FulfilledD [OF assms]
  have len: "length (results out) = length requests"
    using runCollection_results [OF assms] by (metis length_map)
  have "length (filter (\<lambda>r. status r = Completed) rs)
        + length (filter (\<lambda>r. status r = Failed) rs) = length rs" for rs :: "RequestResult list"
  proof (induction rs)
    case Nil
    show ?case by simp
  next
    case (Cons r rs)
    then show ?case by (cases "status r") simp_all
  qed
  with D len show ?thesis by simp
qed

text \<open>
  Claim C4: in both execution modes the results of a run are in the order of the
  templates, \<open>results[i].requestId = templates[i].id\<close> for every index, whatever the order
  in which the requests of the parallel mode finish. A run whose URLs can all be
  interpolated has such results.
\<close>

theorem runCollection_results_in_template_order:
  "(\<forall>out w'. runCollection h requests options w = (Fulfilled out, w') \<longrightarrow>
      length (results out) = length requests
      \<and> (\<forall>i < length requests. requestId (results out ! i) = req_id (requests ! i)))
   \<and> ((\<forall>r \<in> set requests. \<exists>u. replaceVariables (req_url r) (variables options) = Inr u) \<longrightarrow>
      (\<exists>out w'. runCollection h requests options w = (Fulfilled out, w')))"
proof (intro conjI allI impI)
  fix out w' i
  assume run: "runCollection h requests options w = (Fulfilled out, w')"
  from runCollection_results [OF run]
  have eq: "map requestId (results out) = map req_id requests" .
  then show len: "length (results out) = length requests"
    by (metis length_map)
  assume "i < length requests"
  with eq len show "requestId (results out ! i) = req_id (requests ! i)"
    by (metis nth_map)
next
  assume "\<forall>r \<in> set requests. \<exists>u. replaceVariables (req_url r) (variables options) = Inr u"
  then show "\<exists>out w'. runCollection h requests options w = (Fulfilled out, w')"
    by (rule runCollection_total)
qed

text \<open>Equations for evaluating a run in the example environment.\<close>

lemmas eval_run = runCollection_def run_parallel_def run_sequential.simps Promise_all_def
  completion_order_def executeRequest_def start_request_def build_config_def
  interpolate_field_def axios_def pause_def example_host_def example_request_def
  example_options_def Let_def

lemma example_parallel_run:
  "runCollection example_host
      [example_request 7 ''http://slow/{{a}}'', example_request 3 ''http://fast/{{a}}'']
      (example_options Parallel None [(''a'', JStr ''x'')]) \<lparr>now = 1000, trace = []\<rparr>
   = (Fulfilled \<lparr>runId = ''3b241101-e2bb-4255-8caf-4136c566a962'', run_status = RunCompleted,
        results =
          [\<lparr>requestId = 7, name = ''request'', http_method = ''GET'', url = ''http://slow/x'',
            status = Completed,
            response = Some \<lparr>resp_status = safe_int 200, statusText = ''OK'', resp_data = JStr ''done'',
                              resp_headers = JObj []\<rparr>,
            error = None, duration = 50, timestamp = 1000\<rparr>,
           \<lparr>requestId = 3, name = ''request'', http_method = ''GET'', url = ''http://fast/x'',
            status = Completed,
            response = Some \<lparr>resp_status = safe_int 404, statusText = ''Not Found'', resp_data = JNull,
                              resp_headers = JObj []\<rparr>,
            error = None, duration = 10, timestamp = 1000\<rparr>],
        summary = \<lparr>total = 2, completed = 2, failed = 0, totalDuration = 50\<rparr>\<rparr>,
      \<lparr>now = 1050, trace = [Request 3 1000 1010, Request 7 1000 1050]\<rparr>)"
  by (simp add: eval_run eval_match eval_replace)

text \<open>
  The theorem of C4 at a parallel run of two requests: the second finishes 40 ms before
  the first, as the log shows, and the results are in the order of the templates.
\<close>

theorem runCollection_results_in_template_order_witness:
  "(case fst (runCollection example_host
        [example_request 7 ''http://slow/{{a}}'', example_request 3 ''http://fast/{{a}}'']
        (example_options Parallel None [(''a'', JStr ''x'')]) \<lparr>now = 1000, trace = []\<rparr>) of
      Fulfilled out \<Rightarrow>
        requestId (results out ! 0) = 7 \<and> requestId (results out ! 1) = 3
    | Rejected e \<Rightarrow> False
    | Pending \<Rightarrow> False)
   \<and> trace (snd (runCollection example_host
        [example_request 7 ''http://slow/{{a}}'', example_request 3 ''http://fast/{{a}}'']
        (example_options Parallel None [(''a'', JStr ''x'')]) \<lparr>now = 1000, trace = []\<rparr>))
     = [Request 3 1000 1010, Request 7 1000 1050]"
proof -
  let ?requests = "[example_request 7 ''http://slow/{{a}}'', example_request 3 ''http://fast/{{a}}'']"
  let ?options = "example_options Parallel None [(''a'', JStr ''x'')]"
  let ?w = "\<lparr>now = 1000, trace = []\<rparr>"
  have urls: "\<forall>r \<in> set ?requests. \<exists>u. replaceVariables (req_url r) (variables ?options) = Inr u"
    by (simp add: example_request_def example_options_def eval_match eval_replace)
  from runCollection_results_in_template_order [of example_host ?requests ?options ?w] urls
  obtain out w' where run: "runCollection example_host ?requests ?options ?w = (Fulfilled out, w')"
    by blast
  from runCollection_results_in_template_order [of example_host ?requests ?options ?w] run
  have each: "\<forall>i < length ?requests. requestId (results out ! i) = req_id (?requests ! i)"
    by blast
  from each have "requestId (results out ! 0) = req_id (?requests ! 0)" by simp
  then have r0: "requestId (results out ! 0) = 7"
    by (simp add: example_request_def)
  from each have "requestId (results out ! 1) = req_id (?requests ! 1)" by simp
  then have r1: "requestId (results out ! 1) = 3"
    by (simp add: example_request_def)
  have tr: "trace w' = [Request 3 1000 1010, Request 7 1000 1050]"
    using run example_parallel_run by auto
  from r0 r1 tr run show ?thesis by simp
qed

text \<open>
  Claim C7: in the sequential mode with a delay \<open>d > 0\<close> a run that returns has executed
  the requests one after the other in the order of the templates, each followed by a
  pause for which \<open>d\<close> was asked, the last one too: as many pauses as templates, and
  every request and every pause starts when what came before has ended. With a timer that
  never fires early the total duration is at least the sum of the durations of the
  requests plus the delay times the number of templates; for three templates and a delay
  of 100 that is at least the sum plus twice 100.
\<close>

theorem runCollection_sequential_delay_after_every_request:
  assumes "executionMode options = Sequential"
    and "delayBetweenRequests options = Some d" and "0 < d"
    and "runCollection h requests options w = (Fulfilled out, w')"
  shows "(\<exists>evs. trace w' = trace w @ evs
            \<and> map step_of evs = concat (map (\<lambda>r. [Inl (req_id r), Inr d]) requests)
            \<and> length (filter (\<lambda>s. s = Inr d) (map step_of evs)) = length requests
            \<and> serialized (now w) evs (now w'))
       \<and> ((\<forall>t. d \<le> timer h d t) \<longrightarrow>
            sum_list (map duration (results out)) + int (length requests) * int d
              \<le> totalDuration (summary out))
       \<and> ((\<forall>t. d \<le> timer h d t) \<and> length requests = 3 \<and> d = 100 \<longrightarrow>
            sum_list (map duration (results out)) + 2 * 100 \<le> totalDuration (summary out))"
proof -
  note D = runCollection_FulfilledD [OF assms(4)]
  with assms(1) have seq: "run_sequential h requests options [] w = (Fulfilled (results out), w')"
    by simp
  from assms(3) have d: "d \<noteq> 0" by simp
  from run_sequential_paced [OF seq assms(2) d] obtain new evs
    where new: "results out = [] @ new"
      and tr: "trace w' = trace w @ evs"
      and steps: "map step_of evs = concat (map (\<lambda>r. [Inl (req_id r), Inr d]) requests)"
      and ser: "serialized (now w) evs (now w')"
      and dur: "(\<forall>t. d \<le> timer h d t) \<longrightarrow>
                sum_list (map duration new) + int (length requests) * int d \<le> now w' - now w"
    by blast
  have count: "length (filter (\<lambda>s. s = Inr d) (concat (map (\<lambda>r. [Inl (req_id r), Inr d]) rs)))
        = length rs" for rs :: "RequestData list"
    by (induction rs) simp_all
  have pauses: "length (filter (\<lambda>s. s = Inr d) (map step_of evs)) = length requests"
    using count [of requests] by (simp only: steps)
  have 1: "\<exists>evs. trace w' = trace w @ evs
            \<and> map step_of evs = concat (map (\<lambda>r. [Inl (req_id r), Inr d]) requests)
            \<and> length (filter (\<lambda>s. s = Inr d) (map step_of evs)) = length requests
            \<and> serialized (now w) evs (now w')"
    using tr steps ser pauses by blast
  have 2: "(\<forall>t. d \<le> timer h d t) \<longrightarrow>
            sum_list (map duration (results out)) + int (length requests) * int d
              \<le> totalDuration (summary out)"
    using dur new D by simp
  have 3: "(\<forall>t. d \<le> timer h d t) \<and> length requests = 3 \<and> d = 100 \<longrightarrow>
            sum_list (map duration (results out)) + 2 * 100 \<le> totalDuration (summary out)"
    using 2 by auto
  from 1 2 3 show ?thesis by blast
qed

lemma example_sequential_run:
  "runCollection example_host
      [example_request 1 ''http://slow/a'', example_request 2 ''http://down/b'',
       example_request 3 ''http://fast/c'']
      (example_options Sequential (Some 100) []) \<lparr>now = 0, trace = []\<rparr>
   = (Fulfilled \<lparr>runId = ''3b241101-e2bb-4255-8caf-4136c566a962'', run_status = RunFailed,
        results =
          [\<lparr>requestId = 1, name = ''request'', http_method = ''GET'', url = ''http://slow/a'',
            status = Completed,
            response = Some \<lparr>resp_status = safe_int 200, statusText = ''OK'', resp_data = JStr ''done'',
                              resp_headers = JObj []\<rparr>,
            error = None, duration = 50, timestamp = 0\<rparr>,
           \<lparr>requestId = 2, name = ''request'', http_method = ''GET'', url = ''http://down/b'',
            status = Failed, response = None, error = Some ''connect ECONNREFUSED'',
            duration = 5, timestamp = 150\<rparr>,
           \<lparr>requestId = 3, name = ''request'', http_method = ''GET'', url = ''http://fast/c'',
            status = Completed,
            response = Some \<lparr>resp_status = safe_int 404, statusText = ''Not Found'', resp_data = JNull,
                              resp_headers = JObj []\<rparr>,
            error = None, duration = 10, timestamp = 255\<rparr>],
        summary = \<lparr>total = 3, completed = 2, failed = 1, totalDuration = 365\<rparr>\<rparr>,
      \<lparr>now = 365,
       trace = [Request 1 0 50, Delay 100 50 150, Request 2 150 155, Delay 100 155 255,
                Request 3 255 265, Delay 100 265 365]\<rparr>)"
  by (simp add: eval_run eval_match eval_replace)

text \<open>
  The theorem of C7 at a sequential run of three requests with a delay of 100: three
  pauses, the last after the last request, and a total duration of 365 for durations of
  50, 5 and 10.
\<close>

theorem runCollection_sequential_delay_witness:
  "trace (snd (runCollection example_host
      [example_request 1 ''http://slow/a'', example_request 2 ''http://down/b'',
       example_request 3 ''http://fast/c'']
      (example_options Sequential (Some 100) []) \<lparr>now = 0, trace = []\<rparr>))
     = [Request 1 0 50, Delay 100 50 150, Request 2 150 155, Delay 100 155 255,
        Request 3 255 265, Delay 100 265 365]
   \<and> (50 + 5 + 10) + 2 * 100 \<le> (365 :: int)"
proof -
  let ?requests = "[example_request 1 ''http://slow/a'', example_request 2 ''http://down/b'',
       example_request 3 ''http://fast/c'']"
  let ?options = "example_options Sequential (Some 100) []"
  let ?w = "\<lparr>now = 0, trace = []\<rparr>"
  obtain out w' where run: "runCollection example_host ?requests ?options ?w = (Fulfilled out, w')"
    and out: "map duration (results out) = [50, 5, 10]" "totalDuration (summary out) = 365"
    and w': "trace w' = [Request 1 0 50, Delay 100 50 150, Request 2 150 155, Delay 100 155 255,
        Request 3 255 265, Delay 100 265 365]"
    using example_sequential_run by simp
  have mode: "executionMode ?options = Sequential"
    and delay: "delayBetweenRequests ?options = Some 100"
    by (simp_all add: example_options_def)
  have tm: "(\<forall>t. 100 \<le> timer example_host 100 t) \<and> length ?requests = 3 \<and> (100 :: nat) = 100"
    by (simp add: example_host_def)
  from runCollection_sequential_delay_after_every_request [OF mode delay _ run] tm
  have "sum_list (map duration (results out)) + 2 * 100 \<le> totalDuration (summary out)"
    by simp
  with out have "(50 + 5 + 10) + 2 * 100 \<le> (365 :: int)" by simp
  with run w' show ?thesis by simp
qed

text \<open>
  Claim C2, where the code departs from it. The URL is interpolated before the
  \<open>try\<close> block. For a URL with the placeholder \<open>{{x}}\<close> and a bag in which \<open>x\<close> is
  the object \<open>{"toString": 1}\<close>, the conversion of the object to a string throws a
  TypeError, and the promise of \<open>executeRequest\<close> is rejected with it, whatever the host.
\<close>

theorem executeRequest_url_exception_escapes:
  "fst (executeRequest h (example_request 1 ''http://localhost:3001/users/{{x}}'')
          [(''x'', JObj [(''toString'', JNum (safe_int 1))])] w)
     = Rejected (TypeError ''Cannot convert object to primitive value'')"
proof -
  have "replaceVariables (req_url (example_request 1 ''http://localhost:3001/users/{{x}}''))
          [(''x'', JObj [(''toString'', JNum (safe_int 1))])]
        = Inl (TypeError ''Cannot convert object to primitive value'')"
    by (simp add: example_request_def eval_match eval_replace)
  then show ?thesis by (rule executeRequest_rejects)
qed

text \<open>
  Claim C3, where the code departs from it. The same request and bag as for C2: in both
  execution modes the promise of \<open>runCollection\<close> is rejected, and there is no output.
\<close>

theorem runCollection_rejected_by_url_exception:
  "fst (runCollection h [example_request 1 ''http://localhost:3001/users/{{x}}'']
          (example_options mode delay [(''x'', JObj [(''toString'', JNum (safe_int 1))])]) w)
     = Rejected (TypeError ''Cannot convert object to primitive value'')"
proof -
  let ?request = "example_request 1 ''http://localhost:3001/users/{{x}}''"
  let ?vars = "[(''x'', JObj [(''toString'', JNum (safe_int 1))])]"
  have u: "replaceVariables (req_url ?request) ?vars
        = Inl (TypeError ''Cannot convert object to primitive value'')"
    by (simp add: example_request_def eval_match eval_replace)
  show ?thesis
  proof (cases mode)
    case Sequential
    from executeRequest_rejects [OF u, of h w]
    obtain w1 where "executeRequest h ?request ?vars w
        = (Rejected (TypeError ''Cannot convert object to primitive value''), w1)"
      by (cases "executeRequest h ?request ?vars w") auto
    with Sequential show ?thesis
      by (simp add: runCollection_def example_options_def)
  next
    case Parallel
    from start_request_rejects [OF u, of h "now w"]
    show ?thesis using Parallel
      by (simp add: runCollection_def run_parallel_def Promise_all_def completion_order_def
                    example_options_def)
  qed
qed

section \<open>Properties of the script runner\<close>

text \<open>
  The text that \<open>runScript\<close> builds ends in the line \<open>return pm;\<close>, whatever the script
  is, so its evaluation is the SyntaxError of the engine.
\<close>

lemma script_code_ends_in_return: "ends_in_return (script_code script)"
  by (simp add: ends_in_return_def script_code_def is_white_space_def Let_def)

lemma context_eval_script_code:
  "context_eval eng memoryLimit globals (script_code script) timeout
     = Threw (SyntaxError (syntax_error_message eng (script_code script))) False"
  by (simp add: context_eval_def script_code_ends_in_return)

text \<open>The \<open>finally\<close> block: after a call with a script the isolate of the call is disposed.\<close>

lemma runScript_disposes_its_isolate:
  "isDisposed (next_isolate m) (snd (runScript eng (Some (c # cs)) vars m))"
  by (simp add: runScript_def new_isolate_def dispose_def isDisposed_def Let_def
           split: eval_outcome.splits sum.splits)

text \<open>
  Claim C9: with an absent or an empty script \<open>runScript\<close> returns the bag it was given
  and no error, and does not touch the isolates.
\<close>

theorem runScript_without_script:
  "runScript eng None vars m = (Fulfilled \<lparr>script_variables = vars, script_error = None\<rparr>, m)
   \<and> runScript eng (Some []) vars m
       = (Fulfilled \<lparr>script_variables = vars, script_error = None\<rparr>, m)"
  by (simp add: runScript_def)

text \<open>
  Claim C6, where the code departs from it. For every script that is not empty and every
  engine, the text handed to \<open>context.eval\<close> is compiled as a script and ends in a
  \<open>return\<close> statement: the evaluation throws a SyntaxError before anything of the script
  runs. The result of \<open>runScript\<close> is the bag it was given, with the message of that
  error: the script is not run as the body of a function, and no value it returns becomes
  the bag of the result.
\<close>

theorem runScript_never_runs_the_script:
  "fst (runScript eng (Some (c # cs)) vars m)
     = Fulfilled \<lparr>script_variables = vars,
                  script_error = Some (syntax_error_message eng (script_code (c # cs)))\<rparr>"
  by (simp add: runScript_def new_isolate_def context_eval_script_code Let_def
           split: prod.splits)

text \<open>
  Claim C5, where the code departs from it. A call with a script that throws is contained:
  it returns the bag it was given and an error. But the call that follows it, with a
  script that is in order, does not succeed either: it returns the bag it was given and
  the message of the SyntaxError, for every engine and every state of the isolates.
\<close>

theorem runScript_valid_script_after_failure_fails:
  "fst (runScript eng (Some ''throw new Error()'') vars m)
     = Fulfilled \<lparr>script_variables = vars,
                  script_error = Some (syntax_error_message eng (script_code ''throw new Error()''))\<rparr>
   \<and> fst (runScript eng (Some ''pm.token = 1;'') vars
            (snd (runScript eng (Some ''throw new Error()'') vars m)))
     = Fulfilled \<lparr>script_variables = vars,
                  script_error = Some (syntax_error_message eng (script_code ''pm.token = 1;''))\<rparr>"
  by (simp add: runScript_def new_isolate_def context_eval_script_code Let_def
           split: prod.splits)

end
